theory Spec2Isabelle
  imports Main "HOL-Library.AList"
begin

section \<open>The long-polling history log (long-polling/main.go)\<close>

text \<open>
  Go's \<open>int\<close> is a 64-bit two's-complement integer on the platforms the servers are
  built for. It is modelled as \<open>int\<close> with the wrap-around of \<open>nextID++\<close> written out;
  \<open>time.Time\<close> and \<open>time.Duration\<close> are integers counting nanoseconds.
\<close>

definition wrap64 :: "int \<Rightarrow> int" where
  "wrap64 x = (x + 2 ^ 63) mod 2 ^ 64 - 2 ^ 63"

record Message =
  ID :: int
  Text :: string
  Timestamp :: int

record MessageBroker =
  messages :: "Message list"
  nextID :: int

definition NewMessageBroker :: MessageBroker where
  "NewMessageBroker = \<lparr>messages = [], nextID = 1\<rparr>"

text \<open>
  \<open>AddMessage\<close> runs under the write lock, so it is one atomic state transition. The
  reading of \<open>time.Now()\<close> is an input. The slice expression
  \<open>mb.messages[len(mb.messages)-100:]\<close> drops the first \<open>len - 100\<close> elements.
\<close>

definition AddMessage :: "MessageBroker \<Rightarrow> string \<Rightarrow> int \<Rightarrow> Message \<times> MessageBroker" where
  "AddMessage mb text now =
     (let msg = \<lparr>ID = nextID mb, Text = text, Timestamp = now\<rparr>;
          appended = messages mb @ [msg];
          kept = (if length appended > 100
                  then drop (length appended - 100) appended
                  else appended)
      in (msg, \<lparr>messages = kept, nextID = wrap64 (nextID mb + 1)\<rparr>))"

text \<open>
  A sequence of \<open>AddMessage\<close> calls, each given as the text and the clock reading of the
  call; the result is the list of messages the calls returned (everything ever published)
  and the final broker.
\<close>

fun AddMessages :: "MessageBroker \<Rightarrow> (string \<times> int) list \<Rightarrow> Message list \<times> MessageBroker" where
  "AddMessages mb [] = ([], mb)"
| "AddMessages mb (p # ps) =
     (let (msg, mb') = AddMessage mb (fst p) (snd p);
          (rest, mb'') = AddMessages mb' ps
      in (msg # rest, mb''))"

definition GetAllMessages :: "MessageBroker \<Rightarrow> Message list" where
  "GetAllMessages mb = messages mb"

text \<open>
  \<open>GetMessagesSince\<close> is a polling loop that shares the broker with concurrent
  publishers and reads the clock. Both are inputs of the model: one \<open>tick\<close> per loop
  iteration gives the value \<open>time.Since(start)\<close> takes at that iteration's deadline check
  and the \<open>AddMessage\<close> calls of other goroutines that take the lock before the next
  iteration's read. The list of ticks is the observed schedule; \<open>None\<close> means the call
  has not returned within it. The second component of a result counts the
  \<open>time.Sleep(100 * time.Millisecond)\<close> calls made before returning.
\<close>

record tick =
  since :: int
  arrivals :: "(string \<times> int) list"

fun GetMessagesSince ::
  "MessageBroker \<Rightarrow> int \<Rightarrow> int \<Rightarrow> tick list \<Rightarrow> (Message list \<times> nat) option" where
  "GetMessagesSince mb sinceID timeout [] =
     (let newMessages = filter (\<lambda>msg. ID msg > sinceID) (messages mb)
      in if length newMessages > 0 then Some (newMessages, 0) else None)"
| "GetMessagesSince mb sinceID timeout (t # ts) =
     (let newMessages = filter (\<lambda>msg. ID msg > sinceID) (messages mb)
      in if length newMessages > 0 then Some (newMessages, 0)
         else if since t \<ge> timeout then Some ([], 0)
         else map_option (\<lambda>(r, n). (r, Suc n))
                (GetMessagesSince (snd (AddMessages mb (arrivals t))) sinceID timeout ts))"

text \<open>The messages issued by a run of publishes that starts at id \<open>i\<close>.\<close>

fun issued :: "int \<Rightarrow> (string \<times> int) list \<Rightarrow> Message list" where
  "issued i [] = []"
| "issued i (p # ps) = \<lparr>ID = i, Text = fst p, Timestamp = snd p\<rparr> # issued (wrap64 (i + 1)) ps"

text \<open>
  The broker states the loop of \<open>GetMessagesSince\<close> reads, one per iteration, along a
  schedule: the state at the call, then the state after each tick's arrivals.
\<close>

fun reads :: "MessageBroker \<Rightarrow> tick list \<Rightarrow> MessageBroker list" where
  "reads mb [] = [mb]"
| "reads mb (t # ts) = mb # reads (snd (AddMessages mb (arrivals t))) ts"

subsection \<open>The poll handler\<close>

text \<open>
  \<open>strconv.Atoi\<close> belongs to Go's standard library. It accepts an optional sign followed
  by one or more decimal digits whose value fits the 64-bit \<open>int\<close>, and returns an error
  for everything else (\<open>None\<close>).
\<close>

definition digit :: "char \<Rightarrow> int option" where
  "digit c = (let n = (of_char c :: int) in if 48 \<le> n \<and> n \<le> 57 then Some (n - 48) else None)"

fun digits_value :: "string \<Rightarrow> int \<Rightarrow> int option" where
  "digits_value [] acc = Some acc"
| "digits_value (c # cs) acc =
     (case digit c of None \<Rightarrow> None | Some d \<Rightarrow> digits_value cs (acc * 10 + d))"

definition Atoi :: "string \<Rightarrow> int option" where
  "Atoi s =
     (let (neg, ds) = (case s of
                         [] \<Rightarrow> (False, s)
                       | c # cs \<Rightarrow> if c = CHR ''-'' then (True, cs)
                                  else if c = CHR ''+'' then (False, cs)
                                  else (False, s))
      in if ds = [] then None
         else case digits_value ds 0 of
                None \<Rightarrow> None
              | Some n \<Rightarrow> let v = (if neg then - n else n)
                          in if - (2 ^ 63) \<le> v \<and> v < 2 ^ 63 then Some v else None)"

text \<open>The shape of the strings \<open>Atoi\<close> accepts: \<open>[+-]?[0-9]+\<close>.\<close>

definition decimal_literal :: "string \<Rightarrow> bool" where
  "decimal_literal s =
     (case s of
        [] \<Rightarrow> False
      | c # cs \<Rightarrow> if c = CHR ''-'' \<or> c = CHR ''+''
                 then cs \<noteq> [] \<and> list_all (\<lambda>d. digit d \<noteq> None) cs
                 else list_all (\<lambda>d. digit d \<noteq> None) s)"

definition Second :: int where
  "Second = 1000000000"

text \<open>
  \<open>handlePoll\<close> reads the query parameters \<open>since\<close> and \<open>timeout\<close> (\<open>Get\<close> returns the
  empty string for an absent parameter) and calls the broker. \<open>handlePoll_args\<close> is the
  pair of arguments it passes to \<open>GetMessagesSince\<close>; the response carries the messages
  and their count.
\<close>

definition handlePoll_args :: "string \<Rightarrow> string \<Rightarrow> int \<times> int" where
  "handlePoll_args sinceIDStr timeoutStr =
     (let sinceID = (if sinceIDStr \<noteq> []
                     then (case Atoi sinceIDStr of Some ident \<Rightarrow> ident | None \<Rightarrow> 0)
                     else 0);
          timeout = (if timeoutStr \<noteq> []
                     then (case Atoi timeoutStr of
                             Some t \<Rightarrow> if t > 0 \<and> t \<le> 60 then wrap64 (t * Second)
                                       else 30 * Second
                           | None \<Rightarrow> 30 * Second)
                     else 30 * Second)
      in (sinceID, timeout))"

definition handlePoll ::
  "MessageBroker \<Rightarrow> string \<Rightarrow> string \<Rightarrow> tick list \<Rightarrow> (Message list \<times> nat) option" where
  "handlePoll mb sinceIDStr timeoutStr ticks =
     (case handlePoll_args sinceIDStr timeoutStr of
        (sinceID, timeout) \<Rightarrow>
          map_option (\<lambda>(msgs, sleeps). (msgs, length msgs))
            (GetMessagesSince mb sinceID timeout ticks))"

section \<open>The SSE broker (sse/main.go)\<close>

text \<open>
  A \<open>chan string\<close> is a reference to a channel object: a handle is its identity, and the
  heap maps every handle to the state of its channel (the buffered payloads, oldest
  first, the capacity given to \<open>make\<close>, and whether it has been closed). A step either
  completes, or cannot proceed until somebody else acts, or panics.
\<close>

type_synonym handle = nat

record chan =
  buf :: "string list"
  cap :: nat
  closed :: bool

type_synonym heap = "handle \<Rightarrow> chan"

datatype panic = SendOnClosedChannel | CloseOfClosedChannel

datatype 'a outcome = Done 'a | Blocks | Panics panic

fun bind_outcome :: "'a outcome \<Rightarrow> ('a \<Rightarrow> 'b outcome) \<Rightarrow> 'b outcome" where
  "bind_outcome (Done x) f = f x"
| "bind_outcome Blocks f = Blocks"
| "bind_outcome (Panics p) f = Panics p"

definition make_chan :: "nat \<Rightarrow> chan" where
  "make_chan n = \<lparr>buf = [], cap = n, closed = False\<rparr>"

text \<open>
  \<open>select { case client <- msg: default: }\<close>: the send is taken when the buffer has room
  and the default branch otherwise; a send on a closed channel panics. (The channels of
  \<open>handleSSE\<close> have capacity 10, so a receiver can only be parked on an empty buffer,
  where the send is taken anyway.)
\<close>

definition try_send :: "chan \<Rightarrow> string \<Rightarrow> chan outcome" where
  "try_send ch msg =
     (if closed ch then Panics SendOnClosedChannel
      else if length (buf ch) < cap ch then Done (ch\<lparr>buf := buf ch @ [msg]\<rparr>)
      else Done ch)"

definition close_chan :: "chan \<Rightarrow> chan outcome" where
  "close_chan ch = (if closed ch then Panics CloseOfClosedChannel else Done (ch\<lparr>closed := True\<rparr>))"

text \<open>
  \<open>clients\<close> is a Go map used as a set; it is an association list with distinct keys,
  and \<open>range b.clients\<close> visits its keys once each. \<open>Broker.run\<close> takes one operation at
  a time from its three channels; the list of operations is the order in which it
  receives them.
\<close>

record Broker =
  clients :: "(handle \<times> bool) list"

definition newBroker :: Broker where
  "newBroker = \<lparr>clients = []\<rparr>"

datatype op = Register handle | Unregister handle | Broadcast string

fun fan_out :: "handle list \<Rightarrow> string \<Rightarrow> heap \<Rightarrow> heap outcome" where
  "fan_out [] msg h = Done h"
| "fan_out (client # rest) msg h =
     bind_outcome (try_send (h client) msg) (\<lambda>ch. fan_out rest msg (h(client := ch)))"

fun run_step :: "Broker \<times> heap \<Rightarrow> op \<Rightarrow> (Broker \<times> heap) outcome" where
  "run_step (b, h) (Register client) =
     Done (b\<lparr>clients := AList.update client True (clients b)\<rparr>, h)"
| "run_step (b, h) (Unregister client) =
     (case map_of (clients b) client of
        Some ok \<Rightarrow>
          bind_outcome (close_chan (h client))
            (\<lambda>ch. Done (b\<lparr>clients := AList.delete client (clients b)\<rparr>, h(client := ch)))
      | None \<Rightarrow> Done (b, h))"
| "run_step (b, h) (Broadcast msg) =
     bind_outcome (fan_out (map fst (clients b)) msg h) (\<lambda>h'. Done (b, h'))"

fun run :: "Broker \<times> heap \<Rightarrow> op list \<Rightarrow> (Broker \<times> heap) outcome" where
  "run s [] = Done s"
| "run s (x # xs) = bind_outcome (run_step s x) (\<lambda>s'. run s' xs)"

text \<open>
  The state of the registry that \<open>Broker.run\<close> maintains: the keys of the map are
  unique, and a registered channel has not been closed.
\<close>

definition registry_ok :: "Broker \<times> heap \<Rightarrow> bool" where
  "registry_ok s =
     (distinct (map fst (clients (fst s))) \<and> (\<forall>c \<in> fst ` set (clients (fst s)). \<not> closed (snd s c)))"

text \<open>
  \<open>handleSSE\<close> starts with \<open>client := make(chan string, 10)\<close> and sends the new
  channel on \<open>broker.register\<close>; \<open>client\<close> is the identity of the channel \<open>make\<close>
  allocates.
\<close>

definition handleSSE_connect :: "Broker \<times> heap \<Rightarrow> handle \<Rightarrow> (Broker \<times> heap) outcome" where
  "handleSSE_connect s client = run_step (fst s, (snd s)(client := make_chan 10)) (Register client)"

text \<open>
  The receive loop of \<open>handleSSE\<close> on its channel, with the request context not
  cancelled and nobody sending meanwhile: \<open>msg, ok := <-client\<close> takes the oldest
  buffered payload; on an empty buffer it yields \<open>ok = false\<close> when the channel is closed
  and parks the goroutine otherwise. The result is the list of frames written.
\<close>

definition frame :: "string \<Rightarrow> string" where
  "frame msg = ''data: '' @ msg @ [CHR 0x0A, CHR 0x0A]"

fun receive_all :: "string list \<Rightarrow> bool \<Rightarrow> string list outcome" where
  "receive_all [] is_closed = (if is_closed then Done [] else Blocks)"
| "receive_all (msg # rest) is_closed =
     bind_outcome (receive_all rest is_closed) (\<lambda>frames. Done (frame msg # frames))"

definition handleSSE_loop :: "chan \<Rightarrow> string list outcome" where
  "handleSSE_loop client = receive_all (buf client) (closed client)"

section \<open>The WebSocket hub (streaming/main.go)\<close>

text \<open>
  \<open>conn.WriteMessage\<close> and \<open>conn.Close\<close> belong to the gorilla/websocket library. The
  hub calls \<open>WriteMessage\<close> directly from its loop and sets no write deadline, so the call
  is a blocking write on the socket. Per connection the model keeps the text frames
  written, whether the connection has been closed, and whether the peer has stopped
  reading with the socket's buffers full: writing to a closed connection returns an
  error, writing to a stalled one does not return, every other write appends the frame.
\<close>

type_synonym conn = nat

record conn_state =
  written :: "string list"
  conn_closed :: bool
  stalled :: bool

type_synonym conns = "conn \<Rightarrow> conn_state"

definition WriteMessage :: "conn_state \<Rightarrow> string \<Rightarrow> (bool \<times> conn_state) outcome" where
  "WriteMessage c message =
     (if conn_closed c then Done (True, c)
      else if stalled c then Blocks
      else Done (False, c\<lparr>written := written c @ [message]\<rparr>))"

definition Close :: "conn_state \<Rightarrow> conn_state" where
  "Close c = c\<lparr>conn_closed := True\<rparr>"

record Hub =
  hub_clients :: "(conn \<times> bool) list"

definition newHub :: Hub where
  "newHub = \<lparr>hub_clients = []\<rparr>"

datatype hub_op = HubRegister conn | HubUnregister conn | HubBroadcast string

fun hub_fan_out :: "conn list \<Rightarrow> string \<Rightarrow> conns \<Rightarrow> conns outcome" where
  "hub_fan_out [] message cs = Done cs"
| "hub_fan_out (c # rest) message cs =
     bind_outcome (WriteMessage (cs c) message)
       (\<lambda>(err, c'). hub_fan_out rest message (cs(c := c')))"

fun hub_run_step :: "Hub \<times> conns \<Rightarrow> hub_op \<Rightarrow> (Hub \<times> conns) outcome" where
  "hub_run_step (h, cs) (HubRegister c) =
     Done (h\<lparr>hub_clients := AList.update c True (hub_clients h)\<rparr>, cs)"
| "hub_run_step (h, cs) (HubUnregister c) =
     (case map_of (hub_clients h) c of
        Some ok \<Rightarrow> Done (h\<lparr>hub_clients := AList.delete c (hub_clients h)\<rparr>, cs(c := Close (cs c)))
      | None \<Rightarrow> Done (h, cs))"
| "hub_run_step (h, cs) (HubBroadcast message) =
     bind_outcome (hub_fan_out (map fst (hub_clients h)) message cs) (\<lambda>cs'. Done (h, cs'))"

fun hub_run :: "Hub \<times> conns \<Rightarrow> hub_op list \<Rightarrow> (Hub \<times> conns) outcome" where
  "hub_run s [] = Done s"
| "hub_run s (x # xs) = bind_outcome (hub_run_step s x) (\<lambda>s'. hub_run s' xs)"

text \<open>
  One iteration of the read loop of \<open>handleWebSocket\<close> after \<open>ReadMessage\<close> has returned
  a message: \<open>c\<close> is the handler's own connection and \<open>remoteAddr\<close> the request's
  \<open>RemoteAddr\<close>. A send on \<open>hub.broadcast\<close> is served by \<open>Hub.run\<close>. The boolean of the
  result tells whether the loop goes on.
\<close>

datatype message_type = TextMessage | BinaryMessage

definition handleWebSocket_message ::
  "Hub \<times> conns \<Rightarrow> conn \<Rightarrow> string \<Rightarrow> message_type \<Rightarrow> string \<Rightarrow> ((Hub \<times> conns) \<times> bool) outcome" where
  "handleWebSocket_message s c remoteAddr messageType message =
     (if messageType = TextMessage then
        if message = ''broadcast''
        then bind_outcome (hub_run_step s (HubBroadcast (''Broadcast from server at '' @ remoteAddr)))
               (\<lambda>s'. Done (s', True))
        else bind_outcome (WriteMessage (snd s c) (''Echo: '' @ message))
               (\<lambda>(err, c'). Done ((fst s, (snd s)(c := c')), \<not> err))
      else Done (s, True))"

section \<open>Properties of the history log\<close>

lemma AddMessage_messages:
  "messages (snd (AddMessage mb text now)) =
     drop (length (messages mb) + 1 - 100)
       (messages mb @ [\<lparr>ID = nextID mb, Text = text, Timestamp = now\<rparr>])"
  by (simp add: AddMessage_def Let_def)

lemma drop_window:
  "drop (length (drop (length xs - c) xs @ ys) - c) (drop (length xs - c) xs @ ys) =
   drop (length (xs @ ys) - c) (xs @ ys)"
proof (cases "length xs \<le> c")
  case True
  then show ?thesis by simp
next
  case False
  then have "length (drop (length xs - c) xs) = c" by simp
  then have "drop (length (drop (length xs - c) xs @ ys) - c) (drop (length xs - c) xs @ ys)
             = drop (length ys) (drop (length xs - c) xs @ ys)"
    by simp
  also have "\<dots> = drop (length ys) (drop (length xs - c) (xs @ ys))"
    by simp
  also have "\<dots> = drop (length ys + (length xs - c)) (xs @ ys)"
    by (simp only: drop_drop)
  also have "length ys + (length xs - c) = length (xs @ ys) - c"
    using False by simp
  finally show ?thesis .
qed

lemma AddMessages_fst: "fst (AddMessages mb ps) = issued (nextID mb) ps"
  by (induction ps arbitrary: mb) (simp_all add: AddMessage_def Let_def split_beta)

lemma AddMessages_messages:
  "length (messages mb) \<le> 100 \<Longrightarrow> messages (snd (AddMessages mb ps)) =
     drop (length (messages mb @ issued (nextID mb) ps) - 100)
          (messages mb @ issued (nextID mb) ps)"
proof (induction ps arbitrary: mb)
  case Nil
  then show ?case by simp
next
  case (Cons p ps)
  let ?msg = "\<lparr>ID = nextID mb, Text = fst p, Timestamp = snd p\<rparr>"
  let ?mb' = "snd (AddMessage mb (fst p) (snd p))"
  have n: "nextID ?mb' = wrap64 (nextID mb + 1)"
    by (simp add: AddMessage_def Let_def)
  have m: "messages ?mb' = drop (length (messages mb @ [?msg]) - 100) (messages mb @ [?msg])"
    by (simp add: AddMessage_messages)
  have "messages (snd (AddMessages mb (p # ps))) = messages (snd (AddMessages ?mb' ps))"
    by (simp add: split_beta Let_def)
  also have "\<dots> = drop (length (messages ?mb' @ issued (nextID ?mb') ps) - 100)
                      (messages ?mb' @ issued (nextID ?mb') ps)"
    by (rule Cons.IH) (simp add: m)
  also have "\<dots> = drop (length ((messages mb @ [?msg]) @ issued (wrap64 (nextID mb + 1)) ps) - 100)
                      ((messages mb @ [?msg]) @ issued (wrap64 (nextID mb + 1)) ps)"
    unfolding n m by (rule drop_window)
  finally show ?case by simp
qed

lemma AddMessages_append:
  "AddMessages mb (xs @ ys) =
     (fst (AddMessages mb xs) @ fst (AddMessages (snd (AddMessages mb xs)) ys),
      snd (AddMessages (snd (AddMessages mb xs)) ys))"
  by (induction xs arbitrary: mb) (simp_all add: split_beta Let_def)

lemma wrap64_id: "- (2 ^ 63) \<le> x \<Longrightarrow> x < 2 ^ 63 \<Longrightarrow> wrap64 x = x"
  by (simp add: wrap64_def)

lemma ID_issued:
  "1 \<le> i \<Longrightarrow> i + int (length ps) < 2 ^ 63 \<Longrightarrow> map ID (issued i ps) = [i..i + int (length ps) - 1]"
proof (induction ps arbitrary: i)
  case Nil
  then show ?case by simp
next
  case (Cons p ps)
  then have w: "wrap64 (i + 1) = i + 1" by (intro wrap64_id) auto
  have "map ID (issued (i + 1) ps) = [i + 1..i + 1 + int (length ps) - 1]"
    using Cons.prems by (intro Cons.IH) auto
  then show ?case using Cons.prems w by (simp add: upto_rec1 [of i])
qed

lemma length_issued: "length (issued i ps) = length ps"
  by (induction ps arbitrary: i) simp_all

lemma Text_issued: "map Text (issued i ps) = map fst ps"
  by (induction ps arbitrary: i) simp_all

lemma fresh_fst: "fst (AddMessages NewMessageBroker ps) = issued 1 ps"
  by (simp add: AddMessages_fst NewMessageBroker_def)

lemma fresh_messages:
  "messages (snd (AddMessages NewMessageBroker ps)) = drop (length ps - 100) (issued 1 ps)"
  using AddMessages_messages [of NewMessageBroker ps]
  by (simp add: NewMessageBroker_def length_issued)

lemma fresh_ID:
  "int (length ps) < 2 ^ 63 - 1 \<Longrightarrow> map ID (issued 1 ps) = [1..int (length ps)]"
  using ID_issued [of 1 ps] by simp

lemma fresh_ids_positive:
  assumes "int (length ps) < 2 ^ 63 - 1"
  shows "\<forall>m \<in> set (messages (snd (AddMessages NewMessageBroker ps))). 1 \<le> ID m"
proof
  fix m assume "m \<in> set (messages (snd (AddMessages NewMessageBroker ps)))"
  then have "m \<in> set (issued 1 ps)"
    unfolding fresh_messages by (rule in_set_dropD)
  then have "ID m \<in> set (map ID (issued 1 ps))" by simp
  then show "1 \<le> ID m" unfolding fresh_ID [OF assms] by simp
qed

lemma filter_since_all:
  "\<forall>m \<in> set ms. 1 \<le> ID m \<Longrightarrow> sinceID \<le> 0 \<Longrightarrow> filter (\<lambda>msg. ID msg > sinceID) ms = ms"
  by (induction ms) auto

lemma GetMessagesSince_ready:
  "filter (\<lambda>msg. ID msg > sinceID) (messages mb) \<noteq> [] \<Longrightarrow>
   GetMessagesSince mb sinceID timeout ticks =
     Some (filter (\<lambda>msg. ID msg > sinceID) (messages mb), 0)"
  by (cases ticks) (simp_all add: Let_def)

lemma strict_sorted_upto: "sorted_wrt (<) [i..j::int]"
  by (simp add: strict_sorted_iff)

lemma fresh_window:
  assumes "int (length ps) < 2 ^ 63 - 1"
  shows "messages (snd (AddMessages NewMessageBroker ps)) =
           drop (length ps - 100) (fst (AddMessages NewMessageBroker ps))"
    and "sorted_wrt (<) (map ID (messages (snd (AddMessages NewMessageBroker ps))))"
proof -
  show "messages (snd (AddMessages NewMessageBroker ps)) =
           drop (length ps - 100) (fst (AddMessages NewMessageBroker ps))"
    by (simp add: fresh_messages fresh_fst)
  have "sorted_wrt (<) (drop (length ps - 100) (map ID (issued 1 ps)))"
    unfolding fresh_ID [OF assms] by (intro sorted_wrt_drop strict_sorted_upto)
  then show "sorted_wrt (<) (map ID (messages (snd (AddMessages NewMessageBroker ps))))"
    by (simp add: fresh_messages drop_map)
qed

lemma drop_upto: "0 \<le> k \<Longrightarrow> drop (nat k) [i..j] = [i + k..j]"
proof (induction "nat k" arbitrary: k i)
  case 0
  then show ?case by simp
next
  case (Suc n)
  then have k: "nat k = Suc (nat (k - 1))" and n: "n = nat (k - 1)" and k1: "0 \<le> k - 1" by auto
  show ?case
  proof (cases "i \<le> j")
    case True
    have "drop (nat k) [i..j] = drop (nat (k - 1)) [i + 1..j]"
      using True by (subst k, subst upto_rec1 [of i]) simp_all
    also have "\<dots> = [i + 1 + (k - 1)..j]" using Suc.hyps(1) [OF n k1] .
    finally show ?thesis by simp
  next
    case False
    then show ?thesis using Suc.prems by simp
  qed
qed

lemma GetMessagesSince_timeout:
  assumes "since t \<ge> timeout"
    and "\<forall>s \<in> set (reads mb pre). filter (\<lambda>msg. ID msg > sinceID) (messages s) = []"
  shows "GetMessagesSince mb sinceID timeout (pre @ t # post) =
           Some ([], length (takeWhile (\<lambda>p. since p < timeout) pre))"
  using assms(2)
proof (induction pre arbitrary: mb)
  case Nil
  then show ?case using assms(1) by simp
next
  case (Cons p pre)
  then show ?case by (simp add: Let_def)
qed

lemma GetMessagesSince_returns:
  "\<exists>t \<in> set ticks. since t \<ge> timeout \<Longrightarrow>
   \<exists>r. GetMessagesSince mb sinceID timeout ticks = Some r"
proof (induction ticks arbitrary: mb)
  case Nil
  then show ?case by simp
next
  case (Cons t ticks)
  show ?case
  proof (cases "filter (\<lambda>msg. ID msg > sinceID) (messages mb) \<noteq> [] \<or> since t \<ge> timeout")
    case True
    then show ?thesis by (auto simp: Let_def)
  next
    case False
    with Cons.prems have "\<exists>t \<in> set ticks. since t \<ge> timeout" by auto
    from Cons.IH [OF this, of "snd (AddMessages mb (arrivals t))"] False
    show ?thesis by (auto simp: Let_def)
  qed
qed

lemma GetMessagesSince_nonpositive:
  assumes "sinceID \<le> 0"
  shows "int (length ps + length (concat (map arrivals ticks))) < 2 ^ 63 - 1 \<Longrightarrow>
         GetMessagesSince (snd (AddMessages NewMessageBroker ps)) sinceID timeout ticks =
         GetMessagesSince (snd (AddMessages NewMessageBroker ps)) 0 timeout ticks"
proof (induction ticks arbitrary: ps)
  case Nil
  then have "int (length ps) < 2 ^ 63 - 1" by simp
  from fresh_ids_positive [OF this] show ?case
    using assms by (simp add: filter_since_all)
next
  case (Cons t ticks)
  then have "int (length ps) < 2 ^ 63 - 1" by simp
  from fresh_ids_positive [OF this]
  have f: "filter (\<lambda>msg. ID msg > sinceID) (messages (snd (AddMessages NewMessageBroker ps))) =
           filter (\<lambda>msg. ID msg > 0) (messages (snd (AddMessages NewMessageBroker ps)))"
    using assms by (simp add: filter_since_all)
  have nxt: "snd (AddMessages (snd (AddMessages NewMessageBroker ps)) (arrivals t)) =
             snd (AddMessages NewMessageBroker (ps @ arrivals t))"
    by (simp add: AddMessages_append)
  have "int (length (ps @ arrivals t) + length (concat (map arrivals ticks))) < 2 ^ 63 - 1"
    using Cons.prems by simp
  from Cons.IH [OF this] show ?case
    by (simp add: f nxt Let_def)
qed

subsection \<open>The claims about the history log and the waiter\<close>

text \<open>
  C1. Starting from a newly constructed broker, after any sequence of \<open>N\<close> calls of
  \<open>AddMessage\<close> with \<open>1 \<le> N \<le> 100\<close>, \<open>GetMessagesSince\<close> with \<open>sinceID = 0\<close> returns at
  once (for every timeout and schedule), and it returns, as \<open>GetAllMessages\<close> does,
  exactly the \<open>N\<close> messages the calls returned, in order, with the ids \<open>1, \<dots>, N\<close>.
\<close>

theorem first_publishes_all_returned:
  assumes "1 \<le> length ps" and "length ps \<le> 100"
  shows "\<exists>msgs. GetMessagesSince (snd (AddMessages NewMessageBroker ps)) 0 timeout ticks = Some (msgs, 0)
           \<and> GetAllMessages (snd (AddMessages NewMessageBroker ps)) = msgs
           \<and> msgs = fst (AddMessages NewMessageBroker ps)
           \<and> length msgs = length ps
           \<and> map ID msgs = [1..int (length ps)]"
proof -
  let ?mb = "snd (AddMessages NewMessageBroker ps)"
  have small: "int (length ps) < 2 ^ 63 - 1" using assms(2) by simp
  have ms: "messages ?mb = issued 1 ps"
    using assms(2) by (simp add: fresh_messages)
  have "filter (\<lambda>msg. ID msg > 0) (messages ?mb) = messages ?mb"
    using fresh_ids_positive [OF small] by (intro filter_since_all) auto
  moreover have "messages ?mb \<noteq> []"
    using assms(1) unfolding ms by (cases ps) auto
  ultimately have "GetMessagesSince ?mb 0 timeout ticks = Some (messages ?mb, 0)"
    using GetMessagesSince_ready [of 0 ?mb timeout ticks] by simp
  then show ?thesis
    unfolding ms by (simp add: GetAllMessages_def ms fresh_fst length_issued fresh_ID [OF small])
qed

theorem first_publishes_all_returned_witness:
  "GetMessagesSince (snd (AddMessages NewMessageBroker [(''A'', 5), (''B'', 7)])) 0 0 [] =
     Some ([\<lparr>ID = 1, Text = ''A'', Timestamp = 5\<rparr>, \<lparr>ID = 2, Text = ''B'', Timestamp = 7\<rparr>], 0)"
proof -
  have h1: "1 \<le> length [(''A'', 5::int), (''B'', 7)]" by simp
  have h2: "length [(''A'', 5::int), (''B'', 7)] \<le> 100" by simp
  from first_publishes_all_returned [OF h1 h2, of 0 "[]"]
  obtain msgs where
    a: "GetMessagesSince (snd (AddMessages NewMessageBroker [(''A'', 5), (''B'', 7)])) 0 0 [] = Some (msgs, 0)"
    and b: "msgs = fst (AddMessages NewMessageBroker [(''A'', 5), (''B'', 7)])"
    by blast
  have "fst (AddMessages NewMessageBroker [(''A'', 5), (''B'', 7)]) =
          [\<lparr>ID = 1, Text = ''A'', Timestamp = 5\<rparr>, \<lparr>ID = 2, Text = ''B'', Timestamp = 7\<rparr>]"
    by (simp add: AddMessage_def NewMessageBroker_def wrap64_def Let_def)
  with a b show ?thesis by simp
qed

text \<open>
  C2. For every \<open>k \<ge> 1\<close>, after \<open>100 + k\<close> calls of \<open>AddMessage\<close> on a new broker (fewer
  than \<open>2^63 - 1\<close> calls, so that the 64-bit id counter has not wrapped),
  \<open>GetMessagesSince\<close> with \<open>sinceID = 0\<close> and \<open>GetAllMessages\<close> return exactly the 100
  most recently published messages, oldest first (ids \<open>k + 1, \<dots>, k + 100\<close>); and after
  every prefix of the calls the log is a suffix of everything published so far, the last
  100 at most, with strictly ascending ids.
\<close>

theorem overflowing_publishes_keep_last_CAP:
  assumes "1 \<le> k" and "length ps = 100 + k" and "int (length ps) < 2 ^ 63 - 1"
  shows "(\<exists>msgs. GetMessagesSince (snd (AddMessages NewMessageBroker ps)) 0 timeout ticks = Some (msgs, 0)
            \<and> GetAllMessages (snd (AddMessages NewMessageBroker ps)) = msgs
            \<and> msgs = drop k (fst (AddMessages NewMessageBroker ps))
            \<and> length msgs = 100
            \<and> map ID msgs = [int k + 1..int k + 100])
         \<and> (\<forall>j \<le> length ps.
               messages (snd (AddMessages NewMessageBroker (take j ps))) =
                 drop (j - 100) (fst (AddMessages NewMessageBroker (take j ps)))
               \<and> sorted_wrt (<) (map ID (messages (snd (AddMessages NewMessageBroker (take j ps))))))"
proof (intro conjI allI impI)
  let ?mb = "snd (AddMessages NewMessageBroker ps)"
  have ms: "messages ?mb = drop k (issued 1 ps)"
    using assms(2) by (simp add: fresh_messages)
  have len: "length (messages ?mb) = 100"
    unfolding ms using assms(2) by (simp add: length_issued)
  have ids: "map ID (messages ?mb) = [int k + 1..int k + 100]"
    unfolding ms drop_map [symmetric] fresh_ID [OF assms(3)]
    using drop_upto [of "int k" 1 "int (length ps)"] assms(2) by (simp add: add.commute)
  have "filter (\<lambda>msg. ID msg > 0) (messages ?mb) = messages ?mb"
    using fresh_ids_positive [OF assms(3)] by (intro filter_since_all) auto
  moreover have "messages ?mb \<noteq> []" using len by auto
  ultimately have "GetMessagesSince ?mb 0 timeout ticks = Some (messages ?mb, 0)"
    using GetMessagesSince_ready [of 0 ?mb timeout ticks] by simp
  then show "\<exists>msgs. GetMessagesSince ?mb 0 timeout ticks = Some (msgs, 0)
            \<and> GetAllMessages ?mb = msgs
            \<and> msgs = drop k (fst (AddMessages NewMessageBroker ps))
            \<and> length msgs = 100
            \<and> map ID msgs = [int k + 1..int k + 100]"
    using len ids by (simp add: GetAllMessages_def ms fresh_fst)
next
  fix j assume j: "j \<le> length ps"
  then have "int (length (take j ps)) < 2 ^ 63 - 1" using assms(3) by simp
  from fresh_window [OF this] j
  show "messages (snd (AddMessages NewMessageBroker (take j ps))) =
                 drop (j - 100) (fst (AddMessages NewMessageBroker (take j ps)))"
    and "sorted_wrt (<) (map ID (messages (snd (AddMessages NewMessageBroker (take j ps)))))"
    by (simp_all add: min_absorb2)
qed

theorem overflowing_publishes_keep_last_CAP_witness:
  "\<exists>msgs. GetMessagesSince (snd (AddMessages NewMessageBroker (replicate 101 (''m'', 0)))) 0 0 [] = Some (msgs, 0)
            \<and> GetAllMessages (snd (AddMessages NewMessageBroker (replicate 101 (''m'', 0)))) = msgs
            \<and> msgs = drop 1 (fst (AddMessages NewMessageBroker (replicate 101 (''m'', 0))))
            \<and> length msgs = 100
            \<and> map ID msgs = [int 1 + 1..int 1 + 100]"
proof -
  have h1: "1 \<le> (1::nat)" by simp
  have h2: "length (replicate 101 (''m'', 0::int)) = 100 + 1" by simp
  have h3: "int (length (replicate 101 (''m'', 0::int))) < 2 ^ 63 - 1" by simp
  from overflowing_publishes_keep_last_CAP [OF h1 h2 h3, of 0 "[]"]
  show ?thesis by (rule conjunct1)
qed

text \<open>
  C4. For every \<open>sinceID\<close> and every timeout (zero and negative ones included): if the log
  holds a message with a greater id when \<open>GetMessagesSince\<close> is called, the call returns
  exactly those messages from its first read, before it looks at the clock and without
  sleeping, whatever the schedule.
\<close>

theorem wait_returns_available_immediately:
  assumes "filter (\<lambda>msg. ID msg > sinceID) (messages mb) \<noteq> []"
  shows "GetMessagesSince mb sinceID timeout ticks =
           Some (filter (\<lambda>msg. ID msg > sinceID) (messages mb), 0)"
  using assms by (rule GetMessagesSince_ready)

theorem wait_returns_available_immediately_witness:
  "GetMessagesSince \<lparr>messages = [\<lparr>ID = 1, Text = ''A'', Timestamp = 5\<rparr>,
                                   \<lparr>ID = 2, Text = ''B'', Timestamp = 7\<rparr>], nextID = 3\<rparr>
     1 0 [\<lparr>since = 0, arrivals = []\<rparr>] =
   Some ([\<lparr>ID = 2, Text = ''B'', Timestamp = 7\<rparr>], 0)"
proof -
  let ?mb = "\<lparr>messages = [\<lparr>ID = 1, Text = ''A'', Timestamp = 5\<rparr>,
                            \<lparr>ID = 2, Text = ''B'', Timestamp = 7\<rparr>], nextID = 3\<rparr>"
  have h: "filter (\<lambda>msg. ID msg > 1) (messages ?mb) \<noteq> []" by simp
  from wait_returns_available_immediately [OF h, of 0 "[\<lparr>since = 0, arrivals = []\<rparr>]"]
  show ?thesis by simp
qed

text \<open>
  C5. For every \<open>sinceID\<close> and timeout: if none of the reads the loop makes, up to and
  including the iteration whose deadline check finds the timeout elapsed, sees a message
  with an id greater than \<open>sinceID\<close>, then \<open>GetMessagesSince\<close> returns, and what it returns
  is the empty sequence (after at most one sleep per earlier iteration). The function's
  only result is the message list: the timeout is an ordinary return, not an error.
\<close>

theorem wait_timeout_returns_empty:
  assumes "since t \<ge> timeout"
    and "\<forall>s \<in> set (reads mb pre). filter (\<lambda>msg. ID msg > sinceID) (messages s) = []"
  shows "\<exists>n \<le> length pre. GetMessagesSince mb sinceID timeout (pre @ t # post) = Some ([], n)"
proof -
  have "length (takeWhile (\<lambda>p. since p < timeout) pre) \<le> length pre"
    by (rule length_takeWhile_le)
  with GetMessagesSince_timeout [OF assms] show ?thesis by blast
qed

theorem wait_timeout_returns_empty_witness:
  "GetMessagesSince \<lparr>messages = [\<lparr>ID = 1, Text = ''A'', Timestamp = 5\<rparr>,
                                   \<lparr>ID = 2, Text = ''B'', Timestamp = 7\<rparr>], nextID = 3\<rparr>
     2 1000000000
     ([\<lparr>since = 0, arrivals = []\<rparr>, \<lparr>since = 500000000, arrivals = []\<rparr>]
        @ \<lparr>since = 1000000000, arrivals = []\<rparr> # []) = Some ([], 2)"
proof -
  let ?mb = "\<lparr>messages = [\<lparr>ID = 1, Text = ''A'', Timestamp = 5\<rparr>,
                            \<lparr>ID = 2, Text = ''B'', Timestamp = 7\<rparr>], nextID = 3\<rparr>"
  let ?pre = "[\<lparr>since = 0, arrivals = []\<rparr>, \<lparr>since = 500000000, arrivals = []\<rparr>]"
  let ?t = "\<lparr>since = 1000000000, arrivals = []\<rparr>"
  have h1: "since ?t \<ge> 1000000000" by simp
  have h2: "\<forall>s \<in> set (reads ?mb ?pre). filter (\<lambda>msg. ID msg > 2) (messages s) = []" by simp
  from wait_timeout_returns_empty [OF h1 h2, of "[]"]
  obtain n where "GetMessagesSince ?mb 2 1000000000 (?pre @ ?t # []) = Some ([], n)" by blast
  moreover have "GetMessagesSince ?mb 2 1000000000 (?pre @ ?t # []) = Some ([], 2)"
    by (simp add: Let_def)
  ultimately show ?thesis by simp
qed

text \<open>
  C10. On a broker built from a new one by \<open>AddMessage\<close> calls, with further calls
  arriving while the poll waits (fewer than \<open>2^63 - 1\<close> calls in all, so that the id
  counter has not wrapped), every id ever assigned is at least 1, and for every
  \<open>sinceID \<le> 0\<close> and every timeout and schedule \<open>GetMessagesSince\<close> returns exactly what it
  returns for \<open>sinceID = 0\<close>.
\<close>

theorem nonpositive_since_is_zero:
  assumes "sinceID \<le> 0"
    and "int (length ps + length (concat (map arrivals ticks))) < 2 ^ 63 - 1"
  shows "GetMessagesSince (snd (AddMessages NewMessageBroker ps)) sinceID timeout ticks =
         GetMessagesSince (snd (AddMessages NewMessageBroker ps)) 0 timeout ticks
         \<and> (\<forall>m \<in> set (fst (AddMessages NewMessageBroker (ps @ concat (map arrivals ticks)))). 1 \<le> ID m)"
proof
  show "GetMessagesSince (snd (AddMessages NewMessageBroker ps)) sinceID timeout ticks =
         GetMessagesSince (snd (AddMessages NewMessageBroker ps)) 0 timeout ticks"
    using assms by (rule GetMessagesSince_nonpositive)
  have "int (length (ps @ concat (map arrivals ticks))) < 2 ^ 63 - 1"
    using assms(2) by simp
  from fresh_ID [OF this]
  have "set (map ID (issued 1 (ps @ concat (map arrivals ticks)))) \<subseteq> {1..}"
    by auto
  then show "\<forall>m \<in> set (fst (AddMessages NewMessageBroker (ps @ concat (map arrivals ticks)))). 1 \<le> ID m"
    unfolding fresh_fst by auto
qed

theorem nonpositive_since_is_zero_witness:
  "GetMessagesSince (snd (AddMessages NewMessageBroker [(''A'', 5)])) (- 7) 1000000000
     [\<lparr>since = 0, arrivals = [(''B'', 9)]\<rparr>] =
   GetMessagesSince (snd (AddMessages NewMessageBroker [(''A'', 5)])) 0 1000000000
     [\<lparr>since = 0, arrivals = [(''B'', 9)]\<rparr>]"
proof -
  have h1: "(- 7 :: int) \<le> 0" by simp
  have h2: "int (length [(''A'', 5::int)] +
              length (concat (map arrivals [\<lparr>since = 0, arrivals = [(''B'', 9)]\<rparr>]))) < 2 ^ 63 - 1"
    by simp
  from nonpositive_since_is_zero [OF h1 h2, of 1000000000]
  show ?thesis by (rule conjunct1)
qed

subsection \<open>The poll handler\<close>

lemma Atoi_range: "Atoi s = Some v \<Longrightarrow> - (2 ^ 63) \<le> v \<and> v < 2 ^ 63"
  by (auto simp: Atoi_def Let_def split: list.splits if_splits option.splits prod.splits)

lemma digits_value_all: "digits_value ds acc = Some n \<Longrightarrow> list_all (\<lambda>d. digit d \<noteq> None) ds"
  by (induction ds arbitrary: acc) (auto split: option.splits)

lemma Atoi_decimal: "Atoi s = Some v \<Longrightarrow> decimal_literal s"
  by (auto simp: Atoi_def decimal_literal_def Let_def dest: digits_value_all
      split: list.splits if_splits option.splits prod.splits)

lemma seconds_no_wrap: "0 < t \<Longrightarrow> t \<le> 60 \<Longrightarrow> wrap64 (t * Second) = t * Second"
  by (simp add: wrap64_def Second_def)

lemma args_timeout:
  "snd (handlePoll_args s t) =
     (case Atoi t of Some n \<Rightarrow> if 0 < n \<and> n \<le> 60 then n * Second else 30 * Second
                   | None \<Rightarrow> 30 * Second)"
  by (cases "t = []") (simp_all add: handlePoll_args_def Let_def seconds_no_wrap Atoi_def split: option.splits)

lemma args_sinceID:
  "fst (handlePoll_args s t) = (case Atoi s of Some n \<Rightarrow> n | None \<Rightarrow> 0)"
  by (cases "s = []") (simp_all add: handlePoll_args_def Let_def Atoi_def split: option.splits)

text \<open>
  C9. For every poll request the timeout \<open>handlePoll\<close> passes to \<open>GetMessagesSince\<close> lies
  between 1 and 60 seconds: it is 30 s when the parameter is absent, is not an integer
  literal, or lies outside \<open>1..60\<close>, and the given number of seconds otherwise. The
  \<open>sinceID\<close> it passes is 0 when the parameter is absent, is not a decimal literal or
  does not fit the 64-bit \<open>int\<close>, and the parsed integer otherwise, so what reaches the
  broker is always an \<open>int\<close> obtained by the handler itself.
\<close>

theorem poll_parameters_validated:
  "Second \<le> snd (handlePoll_args sinceIDStr timeoutStr)
   \<and> snd (handlePoll_args sinceIDStr timeoutStr) \<le> 60 * Second
   \<and> (timeoutStr = [] \<or> Atoi timeoutStr = None \<or> (\<exists>t. Atoi timeoutStr = Some t \<and> (t < 1 \<or> 60 < t))
        \<longrightarrow> snd (handlePoll_args sinceIDStr timeoutStr) = 30 * Second)
   \<and> (\<forall>t. Atoi timeoutStr = Some t \<and> 1 \<le> t \<and> t \<le> 60
        \<longrightarrow> snd (handlePoll_args sinceIDStr timeoutStr) = t * Second)
   \<and> (sinceIDStr = [] \<or> \<not> decimal_literal sinceIDStr \<or> Atoi sinceIDStr = None
        \<longrightarrow> fst (handlePoll_args sinceIDStr timeoutStr) = 0)
   \<and> (\<forall>v. Atoi sinceIDStr = Some v \<longrightarrow> fst (handlePoll_args sinceIDStr timeoutStr) = v)
   \<and> - (2 ^ 63) \<le> fst (handlePoll_args sinceIDStr timeoutStr)
   \<and> fst (handlePoll_args sinceIDStr timeoutStr) < 2 ^ 63
   \<and> handlePoll mb sinceIDStr timeoutStr ticks =
       map_option (\<lambda>(msgs, sleeps). (msgs, length msgs))
         (GetMessagesSince mb (fst (handlePoll_args sinceIDStr timeoutStr))
            (snd (handlePoll_args sinceIDStr timeoutStr)) ticks)"
proof (intro conjI allI impI)
  show "Second \<le> snd (handlePoll_args sinceIDStr timeoutStr)"
    unfolding args_timeout by (simp add: Second_def split: option.splits)
  show "snd (handlePoll_args sinceIDStr timeoutStr) \<le> 60 * Second"
    unfolding args_timeout by (simp add: Second_def split: option.splits)
  show "snd (handlePoll_args sinceIDStr timeoutStr) = 30 * Second"
    if "timeoutStr = [] \<or> Atoi timeoutStr = None \<or> (\<exists>t. Atoi timeoutStr = Some t \<and> (t < 1 \<or> 60 < t))"
    using that unfolding args_timeout by (auto simp: Atoi_def split: option.splits)
  show "snd (handlePoll_args sinceIDStr timeoutStr) = t * Second"
    if "Atoi timeoutStr = Some t \<and> 1 \<le> t \<and> t \<le> 60" for t
    using that unfolding args_timeout by simp
  show "fst (handlePoll_args sinceIDStr timeoutStr) = 0"
    if "sinceIDStr = [] \<or> \<not> decimal_literal sinceIDStr \<or> Atoi sinceIDStr = None"
    using that Atoi_decimal [of sinceIDStr] unfolding args_sinceID
    by (auto simp: Atoi_def split: option.splits)
  show "fst (handlePoll_args sinceIDStr timeoutStr) = v" if "Atoi sinceIDStr = Some v" for v
    using that unfolding args_sinceID by simp
  show "- (2 ^ 63) \<le> fst (handlePoll_args sinceIDStr timeoutStr)"
    unfolding args_sinceID using Atoi_range [of sinceIDStr] by (simp split: option.splits)
  show "fst (handlePoll_args sinceIDStr timeoutStr) < 2 ^ 63"
    unfolding args_sinceID using Atoi_range [of sinceIDStr] by (simp split: option.splits)
  show "handlePoll mb sinceIDStr timeoutStr ticks =
       map_option (\<lambda>(msgs, sleeps). (msgs, length msgs))
         (GetMessagesSince mb (fst (handlePoll_args sinceIDStr timeoutStr))
            (snd (handlePoll_args sinceIDStr timeoutStr)) ticks)"
    by (simp add: handlePoll_def split_beta)
qed

theorem poll_parameters_validated_witness:
  "handlePoll_args ''abc'' ''61'' = (0, 30 * Second)"
proof -
  have s: "''abc'' = [] \<or> \<not> decimal_literal ''abc'' \<or> Atoi ''abc'' = None"
    by (simp add: Atoi_def digit_def Let_def)
  have t: "''61'' = [] \<or> Atoi ''61'' = None \<or> (\<exists>t. Atoi ''61'' = Some t \<and> (t < 1 \<or> 60 < t))"
    by (simp add: Atoi_def digit_def Let_def)
  from poll_parameters_validated [of "''abc''" "''61''"] s t
  have "fst (handlePoll_args ''abc'' ''61'') = 0" and "snd (handlePoll_args ''abc'' ''61'') = 30 * Second"
    by blast+
  then show ?thesis by (simp add: prod_eq_iff)
qed

section \<open>Properties of the SSE broker\<close>

lemma try_send_Done:
  "\<not> closed ch \<Longrightarrow>
   try_send ch msg = Done (if length (buf ch) < cap ch then ch\<lparr>buf := buf ch @ [msg]\<rparr> else ch)"
  by (simp add: try_send_def)

lemma fan_out_Done:
  assumes "distinct cs" and "\<forall>c \<in> set cs. \<not> closed (h c)"
  shows "fan_out cs msg h =
           Done (\<lambda>c. if c \<in> set cs \<and> length (buf (h c)) < cap (h c)
                      then (h c)\<lparr>buf := buf (h c) @ [msg]\<rparr> else h c)"
  using assms
proof (induction cs arbitrary: h)
  case Nil
  show ?case by simp
next
  case (Cons a cs)
  let ?ch = "if length (buf (h a)) < cap (h a) then (h a)\<lparr>buf := buf (h a) @ [msg]\<rparr> else h a"
  have a: "try_send (h a) msg = Done ?ch"
    using Cons.prems(2) by (simp add: try_send_Done)
  have d: "distinct cs" and n: "a \<notin> set cs" using Cons.prems(1) by auto
  have o: "\<forall>c \<in> set cs. \<not> closed ((h(a := ?ch)) c)"
    using Cons.prems(2) n by auto
  have "fan_out (a # cs) msg h = fan_out cs msg (h(a := ?ch))"
    by (simp add: a)
  also have "\<dots> = Done (\<lambda>c. if c \<in> set cs \<and> length (buf ((h(a := ?ch)) c)) < cap ((h(a := ?ch)) c)
                      then ((h(a := ?ch)) c)\<lparr>buf := buf ((h(a := ?ch)) c) @ [msg]\<rparr> else (h(a := ?ch)) c)"
    by (rule Cons.IH [OF d o])
  also have "(\<lambda>c. if c \<in> set cs \<and> length (buf ((h(a := ?ch)) c)) < cap ((h(a := ?ch)) c)
                      then ((h(a := ?ch)) c)\<lparr>buf := buf ((h(a := ?ch)) c) @ [msg]\<rparr> else (h(a := ?ch)) c)
           = (\<lambda>c. if c \<in> set (a # cs) \<and> length (buf (h c)) < cap (h c)
                      then (h c)\<lparr>buf := buf (h c) @ [msg]\<rparr> else h c)"
    using n by (intro ext) auto
  finally show ?case .
qed

lemma fan_out_others:
  "fan_out cs msg h = Done h' \<Longrightarrow> c \<notin> set cs \<Longrightarrow> h' c = h c"
proof (induction cs arbitrary: h)
  case Nil
  then show ?case by simp
next
  case (Cons a cs)
  from Cons.prems(1) obtain ch where t: "try_send (h a) msg = Done ch"
    and f: "fan_out cs msg (h(a := ch)) = Done h'"
    by (cases "try_send (h a) msg") auto
  from Cons.IH [OF f] Cons.prems(2) show ?case by auto
qed

lemma run_step_Broadcast:
  assumes "distinct (map fst (clients b))" and "\<forall>c \<in> fst ` set (clients b). \<not> closed (h c)"
  shows "run_step (b, h) (Broadcast msg) =
           Done (b, \<lambda>c. if c \<in> fst ` set (clients b) \<and> length (buf (h c)) < cap (h c)
                         then (h c)\<lparr>buf := buf (h c) @ [msg]\<rparr> else h c)"
  using fan_out_Done [of "map fst (clients b)" h msg] assms by simp

lemma run_Broadcasts:
  assumes "distinct (map fst (clients b))"
  shows "\<forall>c \<in> fst ` set (clients b). \<not> closed (h c) \<Longrightarrow>
         \<exists>h'. run (b, h) (map Broadcast msgs) = Done (b, h')
              \<and> (\<forall>c. closed (h' c) = closed (h c) \<and> cap (h' c) = cap (h c))
              \<and> (\<forall>c \<in> fst ` set (clients b). 
                    buf (h' c) = buf (h c) @ take (cap (h c) - length (buf (h c))) msgs)"
proof (induction msgs arbitrary: h)
  case Nil
  then show ?case by simp
next
  case (Cons m msgs)
  let ?h1 = "\<lambda>c. if c \<in> fst ` set (clients b) \<and> length (buf (h c)) < cap (h c)
                         then (h c)\<lparr>buf := buf (h c) @ [m]\<rparr> else h c"
  have s: "run_step (b, h) (Broadcast m) = Done (b, ?h1)"
    using assms Cons.prems by (rule run_step_Broadcast)
  have o: "\<forall>c \<in> fst ` set (clients b). \<not> closed (?h1 c)" using Cons.prems by auto
  from Cons.IH [OF o] obtain h' where
    r: "run (b, ?h1) (map Broadcast msgs) = Done (b, h')"
    and k: "\<forall>c. closed (h' c) = closed (?h1 c) \<and> cap (h' c) = cap (?h1 c)"
    and d: "\<forall>c \<in> fst ` set (clients b). 
                    buf (h' c) = buf (?h1 c) @ take (cap (?h1 c) - length (buf (?h1 c))) msgs"
    by blast
  have "run (b, h) (map Broadcast (m # msgs)) = Done (b, h')"
    using s r by simp
  moreover have "\<forall>c. closed (h' c) = closed (h c) \<and> cap (h' c) = cap (h c)"
    using k by auto
  moreover have "\<forall>c \<in> fst ` set (clients b). 
                    buf (h' c) = buf (h c) @ take (cap (h c) - length (buf (h c))) (m # msgs)"
  proof
    fix c assume c: "c \<in> fst ` set (clients b)"
    from d c have e: "buf (h' c) = buf (?h1 c) @ take (cap (?h1 c) - length (buf (?h1 c))) msgs"
      by blast
    show "buf (h' c) = buf (h c) @ take (cap (h c) - length (buf (h c))) (m # msgs)"
    proof (cases "length (buf (h c)) < cap (h c)")
      case True
      then obtain j where j: "cap (h c) - length (buf (h c)) = Suc j"
        by (metis Suc_diff_Suc)
      then have "cap (h c) - Suc (length (buf (h c))) = j" by simp
      with e c True j show ?thesis by simp
    next
      case False
      with e c show ?thesis by simp
    qed
  qed
  ultimately show ?case by blast
qed


lemma registry_ok_new: "registry_ok (newBroker, h)"
  by (simp add: registry_ok_def newBroker_def)

lemma registry_ok_connect:
  assumes "registry_ok s"
  shows "handleSSE_connect s client =
           Done (fst s\<lparr>clients := AList.update client True (clients (fst s))\<rparr>,
                 (snd s)(client := make_chan 10))"
    and "registry_ok (fst s\<lparr>clients := AList.update client True (clients (fst s))\<rparr>,
                 (snd s)(client := make_chan 10))"
proof -
  show "handleSSE_connect s client =
           Done (fst s\<lparr>clients := AList.update client True (clients (fst s))\<rparr>,
                 (snd s)(client := make_chan 10))"
    by (simp add: handleSSE_connect_def)
  have "distinct (map fst (AList.update client True (clients (fst s))))"
    using assms by (simp add: registry_ok_def distinct_update)
  moreover have "\<forall>c \<in> fst ` set (AList.update client True (clients (fst s))).
                   \<not> closed (((snd s)(client := make_chan 10)) c)"
    using assms unfolding dom_update registry_ok_def by (auto simp: make_chan_def)
  ultimately show "registry_ok (fst s\<lparr>clients := AList.update client True (clients (fst s))\<rparr>,
                 (snd s)(client := make_chan 10))"
    by (simp add: registry_ok_def)
qed

lemma registry_ok_Broadcast:
  assumes "registry_ok s"
  shows "\<exists>h'. run_step s (Broadcast msg) = Done (fst s, h') \<and> registry_ok (fst s, h')
             \<and> (\<forall>c. h' c = (if c \<in> fst ` set (clients (fst s)) \<and> length (buf (snd s c)) < cap (snd s c)
                              then (snd s c)\<lparr>buf := buf (snd s c) @ [msg]\<rparr> else snd s c))"
proof -
  obtain b h where s: "s = (b, h)" by (cases s)
  from assms have d: "distinct (map fst (clients b))"
    and o: "\<forall>c \<in> fst ` set (clients b). \<not> closed (h c)"
    by (simp_all add: registry_ok_def s)
  from run_step_Broadcast [OF d o] d o show ?thesis
    by (simp add: s registry_ok_def)
qed

lemma Unregister_unknown:
  "map_of (clients b) c = None \<Longrightarrow> run_step (b, h) (Unregister c) = Done (b, h)"
  by simp

lemma Unregister_known:
  "map_of (clients b) c = Some v \<Longrightarrow> \<not> closed (h c) \<Longrightarrow>
   run_step (b, h) (Unregister c) =
     Done (b\<lparr>clients := AList.delete c (clients b)\<rparr>, h(c := (h c)\<lparr>closed := True\<rparr>))"
  by (simp add: close_chan_def)

lemma Unregister_removes:
  assumes "run_step (b, h) (Unregister c) = Done (b', h')"
  shows "map_of (clients b') c = None"
proof (cases "map_of (clients b) c")
  case None
  with assms show ?thesis by simp
next
  case (Some v)
  with assms have "clients b' = AList.delete c (clients b)"
    by (auto simp: close_chan_def split: if_splits)
  then show ?thesis by (simp add: delete_conv')
qed

lemma registry_ok_Unregister:
  assumes "registry_ok s"
  shows "\<exists>s'. run_step s (Unregister c) = Done s' \<and> registry_ok s'"
proof -
  obtain b h where s: "s = (b, h)" by (cases s)
  from assms have d: "distinct (map fst (clients b))"
    and o: "\<forall>c \<in> fst ` set (clients b). \<not> closed (h c)"
    by (simp_all add: registry_ok_def s)
  show ?thesis
  proof (cases "map_of (clients b) c")
    case None
    then show ?thesis using assms by (simp add: s)
  next
    case (Some v)
    then have "c \<in> fst ` set (clients b)" by (auto dest: map_of_SomeD intro: rev_image_eqI)
    with o have nc: "\<not> closed (h c)" by blast
    have "registry_ok (b\<lparr>clients := AList.delete c (clients b)\<rparr>, h(c := (h c)\<lparr>closed := True\<rparr>))"
      unfolding registry_ok_def fst_conv snd_conv
    proof (intro conjI ballI)
      show "distinct (map fst (clients (b\<lparr>clients := AList.delete c (clients b)\<rparr>)))"
        using d by (simp add: distinct_delete)
      fix c' assume "c' \<in> fst ` set (clients (b\<lparr>clients := AList.delete c (clients b)\<rparr>))"
      then have m: "c' \<in> fst ` set (AList.delete c (clients b))" by simp
      with delete_notin_dom [of c "clients b"] have ne: "c' \<noteq> c" by blast
      from m dom_delete_subset [of c "clients b"] have "c' \<in> fst ` set (clients b)" by blast
      with o have "\<not> closed (h c')" by blast
      with ne show "\<not> closed ((h(c := (h c)\<lparr>closed := True\<rparr>)) c')" by simp
    qed
    with Unregister_known [of b c v h, OF Some nc] show ?thesis by (simp add: s)
  qed
qed

lemma run_absent_untouched:
  assumes "Register c \<notin> set ops"
  shows "c \<notin> fst ` set (clients (fst s)) \<Longrightarrow> run s ops = Done s' \<Longrightarrow>
         snd s' c = snd s c \<and> c \<notin> fst ` set (clients (fst s'))"
  using assms
proof (induction ops arbitrary: s)
  case Nil
  then show ?case by simp
next
  case (Cons x ops)
  obtain b h where s: "s = (b, h)" by (cases s)
  from Cons.prems(2) obtain s1 where x: "run_step s x = Done s1" and r: "run s1 ops = Done s'"
    by (cases "run_step s x") auto
  have n: "map_of (clients b) c = None"
    using Cons.prems(1) by (simp add: s map_of_eq_None_iff)
  have "snd s1 c = snd s c \<and> c \<notin> fst ` set (clients (fst s1))"
  proof (cases x)
    case (Register c')
    with Cons.prems(3) have ne: "c' \<noteq> c" by auto
    from x Register have s1: "s1 = (b\<lparr>clients := AList.update c' True (clients b)\<rparr>, h)"
      by (simp add: s)
    have "c \<notin> {c'} \<union> fst ` set (clients b)"
      using ne Cons.prems(1) by (simp add: s)
    then have "c \<notin> fst ` set (AList.update c' True (clients b))"
      unfolding dom_update .
    then show ?thesis unfolding s1 s fst_conv snd_conv by simp
  next
    case (Unregister c')
    show ?thesis
    proof (cases "map_of (clients b) c'")
      case None
      with x Unregister Cons.prems(1) show ?thesis by (auto simp: s)
    next
      case (Some v)
      with n have ne: "c' \<noteq> c" by auto
      from x Unregister Some obtain ch where
        s1: "s1 = (b\<lparr>clients := AList.delete c' (clients b)\<rparr>, h(c' := ch))"
        by (cases "close_chan (h c')") (auto simp: s)
      have "c \<notin> fst ` set (AList.delete c' (clients b))"
        using dom_delete_subset [of c' "clients b"] Cons.prems(1) unfolding s fst_conv by blast
      then show ?thesis unfolding s1 s fst_conv snd_conv using ne by simp
    qed
  next
    case (Broadcast msg)
    with x obtain h' where f: "fan_out (map fst (clients b)) msg h = Done h'" and s1: "s1 = (b, h')"
      by (cases "fan_out (map fst (clients b)) msg h") (auto simp: s)
    from fan_out_others [OF f, of c] Cons.prems(1) show ?thesis
      by (simp add: s s1)
  qed
  with Cons.IH [of s1, OF _ r] Cons.prems(3) show ?case by auto
qed

lemma run_step_distinct:
  "distinct (map fst (clients (fst s))) \<Longrightarrow> run_step s x = Done s' \<Longrightarrow>
   distinct (map fst (clients (fst s')))"
proof (cases s; cases x)
  fix b h c assume "distinct (map fst (clients (fst s)))" "run_step s x = Done s'"
    "s = (b, h)" "x = Unregister c"
  then show "distinct (map fst (clients (fst s')))"
    by (cases "map_of (clients b) c"; cases "close_chan (h c)") (auto simp: distinct_delete)
next
  fix b h c assume "distinct (map fst (clients (fst s)))" "run_step s x = Done s'"
    "s = (b, h)" "x = Register c"
  then show "distinct (map fst (clients (fst s')))"
    by (auto simp: distinct_update)
next
  fix b h msg assume "distinct (map fst (clients (fst s)))" "run_step s x = Done s'"
    "s = (b, h)" "x = Broadcast msg"
  then show "distinct (map fst (clients (fst s')))"
    by (cases "fan_out (map fst (clients b)) msg h") auto
qed

lemma run_distinct:
  "distinct (map fst (clients (fst s))) \<Longrightarrow> run s ops = Done s' \<Longrightarrow>
   distinct (map fst (clients (fst s')))"
proof (induction ops arbitrary: s)
  case Nil
  then show ?case by simp
next
  case (Cons x ops)
  from Cons.prems(2) obtain s1 where x: "run_step s x = Done s1" and r: "run s1 ops = Done s'"
    by (cases "run_step s x") auto
  from Cons.IH [OF run_step_distinct [OF Cons.prems(1) x] r] show ?case .
qed

lemma fan_out_once:
  "distinct cs \<Longrightarrow> fan_out cs msg h = Done h' \<Longrightarrow>
   buf (h' c) = buf (h c) \<or> buf (h' c) = buf (h c) @ [msg]"
proof (induction cs arbitrary: h)
  case Nil
  then show ?case by simp
next
  case (Cons a cs)
  from Cons.prems(2) obtain ch where t: "try_send (h a) msg = Done ch"
    and f: "fan_out cs msg (h(a := ch)) = Done h'"
    by (cases "try_send (h a) msg") auto
  from Cons.prems(1) have d: "distinct cs" and n: "a \<notin> set cs" by auto
  show ?case
  proof (cases "c = a")
    case True
    from fan_out_others [OF f n] have e: "h' a = ch" by simp
    from t have "ch = (if length (buf (h a)) < cap (h a) then (h a)\<lparr>buf := buf (h a) @ [msg]\<rparr> else h a)"
      by (auto simp: try_send_def split: if_splits)
    then show ?thesis unfolding True e by (cases "length (buf (h a)) < cap (h a)") simp_all
  next
    case False
    with Cons.IH [OF d f] show ?thesis by simp
  qed
qed

lemma receive_all_closed: "receive_all xs True = Done (map frame xs)"
  by (induction xs) simp_all

lemma receive_all_open: "receive_all xs False = Blocks"
  by (induction xs) simp_all

subsection \<open>The claims about the registry and the fan-out\<close>

text \<open>
  C3, for the SSE broker. In every state of the registry that \<open>Broker.run\<close> maintains, a
  broadcast completes: it neither waits for a subscriber nor panics. Each registered
  channel with room receives the payload at the end of its buffer, a full one is left
  as it is, and no other channel changes, so a drop concerns that subscriber alone. A
  subscriber connected by \<open>handleSSE\<close> (capacity 10) that never receives holds the first
  10 payloads, and no more, after any number of broadcasts, 11 included.
\<close>

theorem sse_broadcast_never_blocks:
  assumes "registry_ok (b, h)"
  shows "(\<exists>h'. run_step (b, h) (Broadcast msg) = Done (b, h')
            \<and> (\<forall>c. h' c = (if c \<in> fst ` set (clients b) \<and> length (buf (h c)) < cap (h c)
                             then (h c)\<lparr>buf := buf (h c) @ [msg]\<rparr> else h c)))
       \<and> (\<exists>b1 h1 h'. handleSSE_connect (b, h) client = Done (b1, h1)
            \<and> run (b1, h1) (map Broadcast msgs) = Done (b1, h')
            \<and> buf (h' client) = take 10 msgs \<and> length (buf (h' client)) \<le> 10)"
proof
  from registry_ok_Broadcast [OF assms, of msg]
  show "\<exists>h'. run_step (b, h) (Broadcast msg) = Done (b, h')
            \<and> (\<forall>c. h' c = (if c \<in> fst ` set (clients b) \<and> length (buf (h c)) < cap (h c)
                             then (h c)\<lparr>buf := buf (h c) @ [msg]\<rparr> else h c))"
    by auto
next
  let ?b1 = "b\<lparr>clients := AList.update client True (clients b)\<rparr>"
  let ?h1 = "h(client := make_chan 10)"
  from registry_ok_connect [OF assms, of client]
  have c: "handleSSE_connect (b, h) client = Done (?b1, ?h1)" and ok: "registry_ok (?b1, ?h1)"
    by simp_all
  from ok have d: "distinct (map fst (clients ?b1))"
    and o: "\<forall>c \<in> fst ` set (clients ?b1). \<not> closed (?h1 c)"
    by (simp_all add: registry_ok_def)
  have r: "client \<in> fst ` set (clients ?b1)"
    by (simp add: dom_update)
  from run_Broadcasts [OF d o, of msgs] obtain h' where
    run: "run (?b1, ?h1) (map Broadcast msgs) = Done (?b1, h')"
    and bufs: "\<forall>c \<in> fst ` set (clients ?b1).
                 buf (h' c) = buf (?h1 c) @ take (cap (?h1 c) - length (buf (?h1 c))) msgs"
    by blast
  from bufs r have "buf (h' client) = buf (?h1 client) @ take (cap (?h1 client) - length (buf (?h1 client))) msgs"
    by blast
  then have "buf (h' client) = take 10 msgs" by (simp add: make_chan_def)
  with c run show "\<exists>b1 h1 h'. handleSSE_connect (b, h) client = Done (b1, h1)
            \<and> run (b1, h1) (map Broadcast msgs) = Done (b1, h')
            \<and> buf (h' client) = take 10 msgs \<and> length (buf (h' client)) \<le> 10"
    by auto
qed

theorem sse_broadcast_never_blocks_witness:
  "\<exists>b1 h1 h'. handleSSE_connect (newBroker, \<lambda>c. make_chan 10) 3 = Done (b1, h1)
      \<and> run (b1, h1) (map Broadcast (replicate 11 ''tick'')) = Done (b1, h')
      \<and> buf (h' 3) = take 10 (replicate 11 ''tick'') \<and> length (buf (h' 3)) \<le> 10"
proof -
  have ok: "registry_ok (newBroker, \<lambda>c. make_chan 10)"
    by (simp add: registry_ok_def newBroker_def)
  from sse_broadcast_never_blocks [OF ok, of "''x''" 3 "replicate 11 ''tick''"]
  show ?thesis by (rule conjunct2)
qed

text \<open>
  The WebSocket hub has no queue per subscriber: \<open>Hub.run\<close> writes each broadcast to
  each connection itself. With a stalled connection registered, the broadcast does not
  return, so the loop serves nothing after it; and a connection that accepts writes
  receives all 11 of 11 broadcasts, none being dropped.
\<close>

theorem hub_broadcast_blocks_counterexample:
  "hub_run_step
     (\<lparr>hub_clients = [(1, True), (2, True)]\<rparr>,
      (\<lambda>c. \<lparr>written = [], conn_closed = False, stalled = False\<rparr>)
        (1 := \<lparr>written = [], conn_closed = False, stalled = True\<rparr>))
     (HubBroadcast ''tick'') = Blocks
   \<and> hub_run
     (\<lparr>hub_clients = [(1, True)]\<rparr>, \<lambda>c. \<lparr>written = [], conn_closed = False, stalled = False\<rparr>)
     (replicate 11 (HubBroadcast ''tick'')) =
     Done (\<lparr>hub_clients = [(1, True)]\<rparr>,
           (\<lambda>c. \<lparr>written = [], conn_closed = False, stalled = False\<rparr>)
             (1 := \<lparr>written = replicate 11 ''tick'', conn_closed = False, stalled = False\<rparr>))"
  by (simp add: WriteMessage_def eval_nat_numeral)

lemma register_unregister_broadcast:
  assumes "registry_ok (b, h)" and "\<not> closed (h c)"
  shows "\<exists>s'. run (b, h) [Register c, Unregister c, Broadcast msg] = Done s'
              \<and> buf (snd s' c) = buf (h c) \<and> c \<notin> fst ` set (clients (fst s'))"
proof -
  let ?b1 = "b\<lparr>clients := AList.update c True (clients b)\<rparr>"
  let ?b2 = "?b1\<lparr>clients := AList.delete c (clients ?b1)\<rparr>"
  let ?h2 = "h(c := (h c)\<lparr>closed := True\<rparr>)"
  have m: "map_of (clients ?b1) c = Some True" by (simp add: update_conv')
  have u: "run_step (?b1, h) (Unregister c) = Done (?b2, ?h2)"
    using Unregister_known [of ?b1 c True h, OF m assms(2)] .
  have d1: "distinct (map fst (clients ?b1))"
    using assms(1) by (simp add: registry_ok_def distinct_update)
  have keys: "fst ` set (clients ?b2) \<subseteq> fst ` set (clients b) - {c}"
    using delete_notin_dom [of c "clients ?b1"] dom_delete_subset [of c "clients ?b1"]
    by (auto simp: dom_update)
  have ok2: "registry_ok (?b2, ?h2)"
    unfolding registry_ok_def fst_conv snd_conv
  proof (intro conjI ballI)
    show "distinct (map fst (clients ?b2))" using d1 by (simp add: distinct_delete)
    fix c' assume "c' \<in> fst ` set (clients ?b2)"
    with keys have "c' \<in> fst ` set (clients b)" and "c' \<noteq> c" by auto
    with assms(1) show "\<not> closed (?h2 c')" by (auto simp: registry_ok_def)
  qed
  from registry_ok_Broadcast [OF ok2, of msg] obtain h' where
    bc: "run_step (?b2, ?h2) (Broadcast msg) = Done (?b2, h')"
    and h': "\<forall>x. h' x = (if x \<in> fst ` set (clients ?b2) \<and> length (buf (?h2 x)) < cap (?h2 x)
                              then (?h2 x)\<lparr>buf := buf (?h2 x) @ [msg]\<rparr> else ?h2 x)"
    by (auto simp only: fst_conv snd_conv)
  have nc: "c \<notin> fst ` set (clients ?b2)" using keys by auto
  with h' have "h' c = ?h2 c" by simp
  then have "buf (h' c) = buf (h c)" by simp
  moreover have "run (b, h) [Register c, Unregister c, Broadcast msg] = Done (?b2, h')"
    using u bc by simp
  ultimately show ?thesis using nc by (intro exI [of _ "(?b2, h')"]) simp
qed

text \<open>
  C6. Once \<open>Broker.run\<close> has served the unregistration of a handle, and as long as that
  handle is not registered again, nothing the loop does afterwards changes the handle's
  channel: no broadcast delivers to it, and it stays out of the registry. The registry's
  keys stay unique, and one broadcast adds its payload at most once to any channel.
  Registering a handle with an open channel, unregistering it at once and then
  broadcasting completes without blocking or panicking and leaves the handle's buffer as
  it was.
\<close>

theorem unregistered_handle_gets_nothing:
  assumes "distinct (map fst (clients b))"
    and "run_step (b, h) (Unregister c) = Done s1"
    and "Register c \<notin> set ops"
    and "run s1 ops = Done s2"
  shows "snd s2 c = snd s1 c
       \<and> c \<notin> fst ` set (clients (fst s2))
       \<and> distinct (map fst (clients (fst s2)))
       \<and> (\<forall>msg s3 c'. run_step s2 (Broadcast msg) = Done s3 \<longrightarrow>
             buf (snd s3 c') = buf (snd s2 c') \<or> buf (snd s3 c') = buf (snd s2 c') @ [msg])
       \<and> (registry_ok (b, h) \<and> \<not> closed (h c) \<longrightarrow>
            (\<exists>s'. run (b, h) [Register c, Unregister c, Broadcast msg] = Done s'
                 \<and> buf (snd s' c) = buf (h c) \<and> c \<notin> fst ` set (clients (fst s'))))"
proof (intro conjI allI impI)
  obtain b1 h1 where s1: "s1 = (b1, h1)" by (cases s1)
  from Unregister_removes [OF assms(2) [unfolded s1]]
  have gone: "c \<notin> fst ` set (clients (fst s1))"
    by (simp add: s1 map_of_eq_None_iff)
  from run_absent_untouched [OF assms(3) gone assms(4)]
  show "snd s2 c = snd s1 c" and "c \<notin> fst ` set (clients (fst s2))" by simp_all
  have "distinct (map fst (clients (fst s1)))"
    using run_step_distinct [of "(b, h)" "Unregister c" s1] assms(1,2) by simp
  from run_distinct [OF this assms(4)]
  show d2: "distinct (map fst (clients (fst s2)))" .
  show "buf (snd s3 c') = buf (snd s2 c') \<or> buf (snd s3 c') = buf (snd s2 c') @ [msg]"
    if "run_step s2 (Broadcast msg) = Done s3" for msg s3 c'
  proof -
    obtain b2 h2 where s2: "s2 = (b2, h2)" by (cases s2)
    from that obtain h3 where f: "fan_out (map fst (clients b2)) msg h2 = Done h3"
      and s3: "s3 = (b2, h3)"
      by (cases "fan_out (map fst (clients b2)) msg h2") (auto simp: s2)
    from d2 have "distinct (map fst (clients b2))" by (simp add: s2)
    from fan_out_once [OF this f, of c'] show ?thesis by (simp add: s2 s3)
  qed
  show "\<exists>s'. run (b, h) [Register c, Unregister c, Broadcast msg] = Done s'
                 \<and> buf (snd s' c) = buf (h c) \<and> c \<notin> fst ` set (clients (fst s'))"
    if "registry_ok (b, h) \<and> \<not> closed (h c)"
    using that register_unregister_broadcast [of b h c msg] by blast
qed


theorem unregistered_handle_gets_nothing_witness:
  "run (\<lparr>clients = [(2, True)]\<rparr>, (\<lambda>c::nat. make_chan 10)(1 := \<lparr>buf = [], cap = 10, closed = True\<rparr>))
         [Broadcast ''x''] =
       Done (\<lparr>clients = [(2, True)]\<rparr>,
        (\<lambda>c::nat. make_chan 10)
          (1 := \<lparr>buf = [], cap = 10, closed = True\<rparr>, 2 := \<lparr>buf = [''x''], cap = 10, closed = False\<rparr>))
   \<and> snd (\<lparr>clients = [(2::nat, True)]\<rparr>,
        (\<lambda>c::nat. make_chan 10)
          (1 := \<lparr>buf = [], cap = 10, closed = True\<rparr>, 2 := \<lparr>buf = [''x''], cap = 10, closed = False\<rparr>)) 1 =
     snd (\<lparr>clients = [(2::nat, True)]\<rparr>,
        (\<lambda>c::nat. make_chan 10)(1 := \<lparr>buf = [], cap = 10, closed = True\<rparr>)) 1
   \<and> (1::nat) \<notin> fst ` set (clients (fst (\<lparr>clients = [(2::nat, True)]\<rparr>,
        (\<lambda>c::nat. make_chan 10)
          (1 := \<lparr>buf = [], cap = 10, closed = True\<rparr>, 2 := \<lparr>buf = [''x''], cap = 10, closed = False\<rparr>))))"
proof -
  let ?b = "\<lparr>clients = [(1, True), (2, True)]\<rparr>"
  let ?h = "\<lambda>c::nat. make_chan 10"
  let ?s1 = "(\<lparr>clients = [(2, True)]\<rparr>, ?h(1 := \<lparr>buf = [], cap = 10, closed = True\<rparr>))"
  let ?s2 = "(\<lparr>clients = [(2, True)]\<rparr>,
              ?h(1 := \<lparr>buf = [], cap = 10, closed = True\<rparr>, 2 := \<lparr>buf = [''x''], cap = 10, closed = False\<rparr>))"
  have h1: "distinct (map fst (clients ?b))" by simp
  have h2: "run_step (?b, ?h) (Unregister 1) = Done ?s1"
    by (simp add: close_chan_def make_chan_def)
  have h3: "Register 1 \<notin> set [Broadcast ''x'']" by simp
  have h4: "run ?s1 [Broadcast ''x''] = Done ?s2"
    by (simp add: try_send_def make_chan_def)
  from unregistered_handle_gets_nothing [OF h1 h2 h3 h4] h4
  show ?thesis by blast
qed

lemma hub_Unregister_removes:
  assumes "hub_run_step (hub, cs) (HubUnregister k) = Done (hub', cs')"
  shows "map_of (hub_clients hub') k = None"
proof (cases "map_of (hub_clients hub) k")
  case None
  with assms show ?thesis by simp
next
  case (Some v)
  with assms have "hub_clients hub' = AList.delete k (hub_clients hub)" by auto
  then show ?thesis by (simp add: delete_conv')
qed

text \<open>
  C7. Unregistering a handle that is not in the registry leaves the broker and every
  channel unchanged and does not fail; after an unregistration that completed, a second
  one changes nothing, so twice equals once. Unregistering a registered handle whose
  channel is open removes it and closes the channel: the receive loop of \<open>handleSSE\<close>,
  which parks on the open channel once the buffer is drained, then returns after writing
  what was buffered. The hub's unregistration is idempotent in the same way and closes
  the connection.
\<close>

theorem unregister_idempotent:
  "(map_of (clients b) c = None \<longrightarrow> run_step (b, h) (Unregister c) = Done (b, h))
   \<and> (\<forall>s'. run_step (b, h) (Unregister c) = Done s' \<longrightarrow> run_step s' (Unregister c) = Done s')
   \<and> run (b, h) [Unregister c, Unregister c] = run (b, h) [Unregister c]
   \<and> (map_of (clients b) c \<noteq> None \<and> \<not> closed (h c) \<longrightarrow>
        run_step (b, h) (Unregister c) =
          Done (b\<lparr>clients := AList.delete c (clients b)\<rparr>, h(c := (h c)\<lparr>closed := True\<rparr>))
        \<and> handleSSE_loop (h c) = Blocks
        \<and> handleSSE_loop ((h c)\<lparr>closed := True\<rparr>) = Done (map frame (buf (h c))))
   \<and> (map_of (hub_clients hub) k = None \<longrightarrow>
        hub_run_step (hub, cs) (HubUnregister k) = Done (hub, cs))
   \<and> (\<forall>s'. hub_run_step (hub, cs) (HubUnregister k) = Done s' \<longrightarrow>
        hub_run_step s' (HubUnregister k) = Done s')
   \<and> (map_of (hub_clients hub) k \<noteq> None \<longrightarrow>
        hub_run_step (hub, cs) (HubUnregister k) =
          Done (hub\<lparr>hub_clients := AList.delete k (hub_clients hub)\<rparr>, cs(k := Close (cs k)))
        \<and> conn_closed (Close (cs k)))"
proof (intro conjI allI impI)
  show "run_step (b, h) (Unregister c) = Done (b, h)" if "map_of (clients b) c = None"
    using that by (rule Unregister_unknown)
  show again: "run_step s' (Unregister c) = Done s'"
    if "run_step (b, h) (Unregister c) = Done s'" for s'
  proof -
    obtain b' h' where s': "s' = (b', h')" by (cases s')
    from Unregister_removes [OF that [unfolded s']] show ?thesis
      unfolding s' by (rule Unregister_unknown)
  qed
  show "run (b, h) [Unregister c, Unregister c] = run (b, h) [Unregister c]"
    using again by (cases "run_step (b, h) (Unregister c)") simp_all
  show "run_step (b, h) (Unregister c) =
          Done (b\<lparr>clients := AList.delete c (clients b)\<rparr>, h(c := (h c)\<lparr>closed := True\<rparr>))"
    if "map_of (clients b) c \<noteq> None \<and> \<not> closed (h c)"
    using that by (auto simp: close_chan_def)
  show "handleSSE_loop (h c) = Blocks" if "map_of (clients b) c \<noteq> None \<and> \<not> closed (h c)"
    using that by (simp add: handleSSE_loop_def receive_all_open)
  show "handleSSE_loop ((h c)\<lparr>closed := True\<rparr>) = Done (map frame (buf (h c)))"
    by (simp add: handleSSE_loop_def receive_all_closed)
  show "hub_run_step (hub, cs) (HubUnregister k) = Done (hub, cs)"
    if "map_of (hub_clients hub) k = None"
    using that by simp
  show "hub_run_step s' (HubUnregister k) = Done s'"
    if "hub_run_step (hub, cs) (HubUnregister k) = Done s'" for s'
  proof -
    obtain hub' cs' where s': "s' = (hub', cs')" by (cases s')
    from hub_Unregister_removes [OF that [unfolded s']] show ?thesis
      unfolding s' by simp
  qed
  show "hub_run_step (hub, cs) (HubUnregister k) =
          Done (hub\<lparr>hub_clients := AList.delete k (hub_clients hub)\<rparr>, cs(k := Close (cs k)))"
    if "map_of (hub_clients hub) k \<noteq> None"
    using that by auto
  show "conn_closed (Close (cs k))" by (simp add: Close_def)
qed

theorem unregister_idempotent_witness:
  "run_step (\<lparr>clients = [(1, True)]\<rparr>, \<lambda>c. \<lparr>buf = [''a''], cap = 10, closed = False\<rparr>) (Unregister 1) =
     Done (\<lparr>clients = []\<rparr>,
           (\<lambda>c. \<lparr>buf = [''a''], cap = 10, closed = False\<rparr>)(1 := \<lparr>buf = [''a''], cap = 10, closed = True\<rparr>))
   \<and> handleSSE_loop \<lparr>buf = [''a''], cap = 10, closed = False\<rparr> = Blocks
   \<and> handleSSE_loop \<lparr>buf = [''a''], cap = 10, closed = True\<rparr> = Done [frame ''a'']
   \<and> run_step (\<lparr>clients = []\<rparr>,
           (\<lambda>c. \<lparr>buf = [''a''], cap = 10, closed = False\<rparr>)(1 := \<lparr>buf = [''a''], cap = 10, closed = True\<rparr>))
        (Unregister 1) =
     Done (\<lparr>clients = []\<rparr>,
           (\<lambda>c. \<lparr>buf = [''a''], cap = 10, closed = False\<rparr>)(1 := \<lparr>buf = [''a''], cap = 10, closed = True\<rparr>))"
proof -
  let ?b = "\<lparr>clients = [(1::nat, True)]\<rparr>"
  let ?h = "\<lambda>c::nat. \<lparr>buf = [''a''], cap = 10, closed = False\<rparr>"
  have k: "map_of (clients ?b) 1 \<noteq> None \<and> \<not> closed (?h 1)" by simp
  from unregister_idempotent [of ?b 1 ?h] k
  have u: "run_step (?b, ?h) (Unregister 1) =
          Done (?b\<lparr>clients := AList.delete 1 (clients ?b)\<rparr>, ?h(1 := (?h 1)\<lparr>closed := True\<rparr>))"
    and l1: "handleSSE_loop (?h 1) = Blocks"
    and l2: "handleSSE_loop ((?h 1)\<lparr>closed := True\<rparr>) = Done (map frame (buf (?h 1)))"
    and tw: "\<forall>s'. run_step (?b, ?h) (Unregister 1) = Done s' \<longrightarrow> run_step s' (Unregister 1) = Done s'"
    by blast+
  from u have u': "run_step (?b, ?h) (Unregister 1) =
     Done (\<lparr>clients = []\<rparr>, ?h(1 := \<lparr>buf = [''a''], cap = 10, closed = True\<rparr>))"
    by simp
  from tw u' have "run_step (\<lparr>clients = []\<rparr>, ?h(1 := \<lparr>buf = [''a''], cap = 10, closed = True\<rparr>)) (Unregister 1) =
     Done (\<lparr>clients = []\<rparr>, ?h(1 := \<lparr>buf = [''a''], cap = 10, closed = True\<rparr>))"
    by blast
  with u' l1 l2 show ?thesis by simp
qed

section \<open>Properties of the WebSocket handler\<close>

lemma hub_fan_out_Done:
  assumes "distinct ks" and "\<forall>k \<in> set ks. \<not> conn_closed (cs k) \<and> \<not> stalled (cs k)"
  shows "hub_fan_out ks message cs =
           Done (\<lambda>k. if k \<in> set ks then (cs k)\<lparr>written := written (cs k) @ [message]\<rparr> else cs k)"
  using assms
proof (induction ks arbitrary: cs)
  case Nil
  show ?case by simp
next
  case (Cons a ks)
  let ?c = "(cs a)\<lparr>written := written (cs a) @ [message]\<rparr>"
  have w: "WriteMessage (cs a) message = Done (False, ?c)"
    using Cons.prems(2) by (simp add: WriteMessage_def)
  have d: "distinct ks" and n: "a \<notin> set ks" using Cons.prems(1) by auto
  have o: "\<forall>k \<in> set ks. \<not> conn_closed ((cs(a := ?c)) k) \<and> \<not> stalled ((cs(a := ?c)) k)"
    using Cons.prems(2) n by auto
  have "hub_fan_out (a # ks) message cs = hub_fan_out ks message (cs(a := ?c))"
    by (simp add: w)
  also have "\<dots> = Done (\<lambda>k. if k \<in> set ks
                      then ((cs(a := ?c)) k)\<lparr>written := written ((cs(a := ?c)) k) @ [message]\<rparr>
                      else (cs(a := ?c)) k)"
    by (rule Cons.IH [OF d o])
  also have "(\<lambda>k. if k \<in> set ks
                      then ((cs(a := ?c)) k)\<lparr>written := written ((cs(a := ?c)) k) @ [message]\<rparr>
                      else (cs(a := ?c)) k)
           = (\<lambda>k. if k \<in> set (a # ks) then (cs k)\<lparr>written := written (cs k) @ [message]\<rparr> else cs k)"
    using n by (intro ext) auto
  finally show ?case .
qed

text \<open>
  C8. For every inbound text message on a WebSocket connection: if it is the literal
  control token \<open>broadcast\<close>, the handler echoes nothing and hands the hub the text
  \<open>Broadcast from server at\<close> followed by the request's remote address, which the hub
  writes to every registered connection, the sender's included (when all of them accept
  writes); every other text message \<open>m\<close> is answered on the sender's connection only,
  with \<open>Echo:\<close> followed by \<open>m\<close>. A binary message changes nothing.
\<close>

theorem websocket_control_token:
  "(distinct (map fst (hub_clients hub))
      \<and> (\<forall>k \<in> fst ` set (hub_clients hub). \<not> conn_closed (cs k) \<and> \<not> stalled (cs k)) \<longrightarrow>
      handleWebSocket_message (hub, cs) c remoteAddr TextMessage ''broadcast'' =
        Done ((hub, \<lambda>k. if k \<in> fst ` set (hub_clients hub)
                         then (cs k)\<lparr>written := written (cs k) @ [''Broadcast from server at '' @ remoteAddr]\<rparr>
                         else cs k), True))
   \<and> (message \<noteq> ''broadcast'' \<and> \<not> conn_closed (cs c) \<and> \<not> stalled (cs c) \<longrightarrow>
      handleWebSocket_message (hub, cs) c remoteAddr TextMessage message =
        Done ((hub, cs(c := (cs c)\<lparr>written := written (cs c) @ [''Echo: '' @ message]\<rparr>)), True))
   \<and> handleWebSocket_message (hub, cs) c remoteAddr BinaryMessage message = Done ((hub, cs), True)"
proof (intro conjI impI)
  assume a: "distinct (map fst (hub_clients hub))
      \<and> (\<forall>k \<in> fst ` set (hub_clients hub). \<not> conn_closed (cs k) \<and> \<not> stalled (cs k))"
  then have d: "distinct (map fst (hub_clients hub))"
    and o: "\<forall>k \<in> set (map fst (hub_clients hub)). \<not> conn_closed (cs k) \<and> \<not> stalled (cs k)"
    by simp_all
  from hub_fan_out_Done [OF d o, of "''Broadcast from server at '' @ remoteAddr"]
  show "handleWebSocket_message (hub, cs) c remoteAddr TextMessage ''broadcast'' =
        Done ((hub, \<lambda>k. if k \<in> fst ` set (hub_clients hub)
                         then (cs k)\<lparr>written := written (cs k) @ [''Broadcast from server at '' @ remoteAddr]\<rparr>
                         else cs k), True)"
    by (simp add: handleWebSocket_message_def)
next
  assume "message \<noteq> ''broadcast'' \<and> \<not> conn_closed (cs c) \<and> \<not> stalled (cs c)"
  then show "handleWebSocket_message (hub, cs) c remoteAddr TextMessage message =
        Done ((hub, cs(c := (cs c)\<lparr>written := written (cs c) @ [''Echo: '' @ message]\<rparr>)), True)"
    by (simp add: handleWebSocket_message_def WriteMessage_def)
next
  show "handleWebSocket_message (hub, cs) c remoteAddr BinaryMessage message = Done ((hub, cs), True)"
    by (simp add: handleWebSocket_message_def)
qed

theorem websocket_control_token_witness:
  "handleWebSocket_message
     (\<lparr>hub_clients = [(1, True), (2, True)]\<rparr>, \<lambda>k. \<lparr>written = [], conn_closed = False, stalled = False\<rparr>)
     1 ''10.0.0.7:5000'' TextMessage ''hello'' =
   Done ((\<lparr>hub_clients = [(1, True), (2, True)]\<rparr>,
          (\<lambda>k. \<lparr>written = [], conn_closed = False, stalled = False\<rparr>)
            (1 := \<lparr>written = [''Echo: hello''], conn_closed = False, stalled = False\<rparr>)), True)"
proof -
  let ?hub = "\<lparr>hub_clients = [(1::nat, True), (2, True)]\<rparr>"
  let ?cs = "\<lambda>k::nat. \<lparr>written = [], conn_closed = False, stalled = False\<rparr>"
  have h: "''hello'' \<noteq> ''broadcast'' \<and> \<not> conn_closed (?cs 1) \<and> \<not> stalled (?cs 1)" by simp
  from websocket_control_token [of ?hub ?cs 1 "''10.0.0.7:5000''" "''hello''"] h
  have "handleWebSocket_message (?hub, ?cs) 1 ''10.0.0.7:5000'' TextMessage ''hello'' =
        Done ((?hub, ?cs(1 := (?cs 1)\<lparr>written := written (?cs 1) @ [''Echo: '' @ ''hello'']\<rparr>)), True)"
    by blast
  then show ?thesis by simp
qed

text \<open>
  What the hub fans out for the control token is the server's notice, not the inbound
  payload.
\<close>

theorem websocket_broadcast_payload_counterexample:
  "handleWebSocket_message
     (\<lparr>hub_clients = [(1, True), (2, True)]\<rparr>, \<lambda>k. \<lparr>written = [], conn_closed = False, stalled = False\<rparr>)
     1 ''10.0.0.7:5000'' TextMessage ''broadcast'' =
   Done ((\<lparr>hub_clients = [(1, True), (2, True)]\<rparr>,
          (\<lambda>k. \<lparr>written = [], conn_closed = False, stalled = False\<rparr>)
            (1 := \<lparr>written = [''Broadcast from server at 10.0.0.7:5000''], conn_closed = False, stalled = False\<rparr>,
             2 := \<lparr>written = [''Broadcast from server at 10.0.0.7:5000''], conn_closed = False, stalled = False\<rparr>)),
         True)
   \<and> ''Broadcast from server at 10.0.0.7:5000'' \<noteq> ''broadcast''"
  by (simp add: handleWebSocket_message_def WriteMessage_def)

end
